theory Spec2Isabelle
  imports Main
begin

section \<open>The page generator of create\_game.py\<close>

text \<open>
  The script generates a random "tree" string over the symbols N, L and R and walks it
  with a three-symbol window to build the list \<open>sequence\<close> handed to the template,
  copying one GIF per emitted step. The model keeps the two parts apart as the script
  does: \<open>generate_tree\<close> (lines 68-98) and the module-level loop (lines 109-143).
\<close>

subsection \<open>Errors and Python's indexing\<close>

datatype error = ValueError string | IndexError

text \<open>\<open>tree[n]\<close> for a non-negative \<open>n\<close>: Python raises IndexError out of range.\<close>

definition py_getitem :: "string \<Rightarrow> nat \<Rightarrow> error + char" where
  "py_getitem s n = (if n < length s then Inr (s ! n) else Inl IndexError)"

text \<open>\<open>tree[-1]\<close>: the last element, IndexError on the empty list.\<close>

definition py_last :: "string \<Rightarrow> error + char" where
  "py_last s = (if s = [] then Inl IndexError else Inr (last s))"

subsection \<open>The random source\<close>

text \<open>
  The generator is a stream of draws \<open>rnd 0, rnd 1, ...\<close> together with the number of
  draws consumed so far. \<open>random.choice(seq)\<close> indexes \<open>seq\<close> with a draw below
  \<open>len(seq)\<close>; reducing an arbitrary draw modulo the length reaches every element, so
  quantifying over \<open>rnd\<close> covers every outcome of the random source.
\<close>

type_synonym rng = "nat \<Rightarrow> nat"

definition random_choice :: "'a list \<Rightarrow> nat \<Rightarrow> 'a" where
  "random_choice seq r = seq ! (r mod length seq)"

subsection \<open>generate\_tree\<close>

text \<open>
  The \<open>while\<close> loop of lines 90-94, on the list \<open>tree\<close> and the number \<open>k\<close> of draws
  consumed. It returns the grown list and the new draw count.
\<close>

function tree_loop :: "rng \<Rightarrow> int \<Rightarrow> string \<Rightarrow> nat \<Rightarrow> (error + string) \<times> nat" where
  "tree_loop rnd len tree k =
     (if int (length tree) < len - 2 then
        (case py_last tree of
           Inl e \<Rightarrow> (Inl e, k)
         | Inr c \<Rightarrow>
             if c = CHR ''N''
             then tree_loop rnd len (tree @ [random_choice [CHR ''R'', CHR ''L''] (rnd k)]) (Suc k)
             else tree_loop rnd len (tree @ [CHR ''N'']) k)
      else (Inr tree, k))"
  by pat_completeness auto
termination
  by (relation "measure (\<lambda>(rnd, len, tree, k). nat (len - 2 - int (length tree)))") auto

declare tree_loop.simps [simp del]

definition generate_tree :: "rng \<Rightarrow> nat \<Rightarrow> int \<Rightarrow> (error + string) \<times> nat" where
  "generate_tree rnd k len =
     (if len < 5 \<or> len mod 2 = 0 then
        (Inl (ValueError ''Length must be an odd number and at least 5''), k)
      else
        (case tree_loop rnd len [CHR ''N''] k of
           (Inl e, k') \<Rightarrow> (Inl e, k')
         | (Inr tree, k') \<Rightarrow> (Inr ((tree @ [CHR ''R'']) @ [CHR ''N'']), k')))"

subsection \<open>Copy requests\<close>

text \<open>
  \<open>str(num)\<close> for a non-negative integer: its decimal digits.
\<close>

fun str_nat :: "nat \<Rightarrow> string" where
  "str_nat n =
     (if n < 10 then [''0123456789'' ! n]
      else str_nat (n div 10) @ [''0123456789'' ! (n mod 10)])"

declare str_nat.simps [simp del]

text \<open>
  The state of the module-level loop: the list \<open>sequence\<close> and the calls made to
  \<open>shutil.copyfile\<close>, in order, each with its source and destination path. The asset
  store that carries the copies out is an external collaborator.
\<close>

record build_state =
  sequence :: "string list list list"
  copies :: "(string \<times> string) list"

definition frame_path :: "string \<Rightarrow> string" where
  "frame_path name = ''static/game_frames/'' @ name @ ''.gif''"

definition copy_path :: "string \<Rightarrow> nat \<Rightarrow> string" where
  "copy_path name num = ''static/game_frame_copies/'' @ name @ ''_'' @ str_nat num @ ''.gif''"

definition create_gif_copy :: "string \<Rightarrow> nat \<Rightarrow> build_state \<Rightarrow> build_state" where
  "create_gif_copy name num st =
     st\<lparr>copies := copies st @ [(frame_path name, copy_path name num)]\<rparr>"

definition sequence_append :: "string list list \<Rightarrow> build_state \<Rightarrow> build_state" where
  "sequence_append d st = st\<lparr>sequence := sequence st @ [d]\<rparr>"

subsection \<open>The sequence builder\<close>

text \<open>The \<open>match\<close> statement of lines 125-143; no case matches means no effect.\<close>

definition match_block :: "char \<Rightarrow> char \<Rightarrow> char \<Rightarrow> nat \<Rightarrow> build_state \<Rightarrow> build_state" where
  "match_block block next_block next_next_block index st =
     (if (block, next_block, next_next_block) = (CHR ''L'', CHR ''N'', CHR ''L'') then
        create_gif_copy ''LNL'' index
          (sequence_append [[''R'', ''LNL''], [''L'', ''LN_DEATH'']] st)
      else if (block, next_block, next_next_block) = (CHR ''L'', CHR ''N'', CHR ''R'') then
        create_gif_copy ''LNR'' index
          (sequence_append [[''R'', ''LNR''], [''L'', ''LN_DEATH'']] st)
      else if (block, next_block, next_next_block) = (CHR ''R'', CHR ''N'', CHR ''L'') then
        create_gif_copy ''RNL'' index
          (sequence_append [[''L'', ''RNL''], [''R'', ''RN_DEATH'']] st)
      else if (block, next_block, next_next_block) = (CHR ''R'', CHR ''N'', CHR ''R'') then
        create_gif_copy ''RNR'' index
          (sequence_append [[''L'', ''RNR''], [''R'', ''RN_DEATH'']] st)
      else if (block, next_block, next_next_block) = (CHR ''N'', CHR ''L'', CHR ''N'') then
        create_gif_copy ''NLN'' index
          (sequence_append [[''R'', ''NLN''], [''L'', ''NLN_DEATH'']] st)
      else if (block, next_block, next_next_block) = (CHR ''N'', CHR ''R'', CHR ''N'') then
        create_gif_copy ''NRN'' index
          (sequence_append [[''L'', ''NRN''], [''R'', ''NRN_DEATH'']] st)
      else st)"

text \<open>Lines 117-123: the third symbol of the window.\<close>

definition next_next_block :: "string \<Rightarrow> nat \<Rightarrow> error + char" where
  "next_next_block tree index =
     (if int index = int (length tree) - 2 then Inr CHR ''L''
      else py_getitem tree (index + 2))"

text \<open>The body of the \<open>for\<close> loop, lines 111-143, for one pair of \<open>enumerate(tree)\<close>.\<close>

definition process_block :: "string \<Rightarrow> nat \<Rightarrow> char \<Rightarrow> build_state \<Rightarrow> error + build_state" where
  "process_block tree index block st =
     (if int index = int (length tree) - 1 then Inr st
      else
        (case py_getitem tree (index + 1) of
           Inl e \<Rightarrow> Inl e
         | Inr next_block \<Rightarrow>
             (case next_next_block tree index of
                Inl e \<Rightarrow> Inl e
              | Inr nnb \<Rightarrow> Inr (match_block block next_block nnb index st))))"

fun sequence_loop :: "string \<Rightarrow> (nat \<times> char) list \<Rightarrow> build_state \<Rightarrow> error + build_state" where
  "sequence_loop tree [] st = Inr st"
| "sequence_loop tree ((index, block) # rest) st =
     (case process_block tree index block st of
        Inl e \<Rightarrow> Inl e
      | Inr st' \<Rightarrow> sequence_loop tree rest st')"

definition build_sequence :: "string \<Rightarrow> error + build_state" where
  "build_sequence tree =
     sequence_loop tree (enumerate 0 tree) \<lparr>sequence = [], copies = []\<rparr>"

subsection \<open>Reading a step descriptor\<close>

text \<open>
  A step is the nested list \<open>[[correct_button, main_gif_basename],
  [wrong_button, death_gif_basename]]\<close> of the module docstring.
\<close>

definition correct_button :: "string list list \<Rightarrow> string" where
  "correct_button d = d ! 0 ! 0"

definition main_gif_basename :: "string list list \<Rightarrow> string" where
  "main_gif_basename d = d ! 0 ! 1"

definition wrong_button :: "string list list \<Rightarrow> string" where
  "wrong_button d = d ! 1 ! 0"

definition death_gif_basename :: "string list list \<Rightarrow> string" where
  "death_gif_basename d = d ! 1 ! 1"

subsection \<open>The specification's view of the builder\<close>

text \<open>
  The lookaside table as the specification prints it: window, then correct choice,
  success asset, wrong choice and failure asset. It is compared with \<open>match_block\<close>
  below.
\<close>

definition lookaside_table :: "((char \<times> char \<times> char) \<times> (string \<times> string \<times> string \<times> string)) list" where
  "lookaside_table =
     [((CHR ''L'', CHR ''N'', CHR ''L''), (''R'', ''LNL'', ''L'', ''LN_DEATH'')),
      ((CHR ''L'', CHR ''N'', CHR ''R''), (''R'', ''LNR'', ''L'', ''LN_DEATH'')),
      ((CHR ''R'', CHR ''N'', CHR ''L''), (''L'', ''RNL'', ''R'', ''RN_DEATH'')),
      ((CHR ''R'', CHR ''N'', CHR ''R''), (''L'', ''RNR'', ''R'', ''RN_DEATH'')),
      ((CHR ''N'', CHR ''L'', CHR ''N''), (''R'', ''NLN'', ''L'', ''NLN_DEATH'')),
      ((CHR ''N'', CHR ''R'', CHR ''N''), (''L'', ''NRN'', ''R'', ''NRN_DEATH''))]"

definition descriptor :: "string \<times> string \<times> string \<times> string \<Rightarrow> string list list" where
  "descriptor row = (case row of (c, s, w, f) \<Rightarrow> [[c, s], [w, f]])"

text \<open>
  The window the loop body examines at index \<open>i\<close> of \<open>tree\<close>, for an index before
  the last, and the descriptor the table gives for it.
\<close>

definition window :: "string \<Rightarrow> nat \<Rightarrow> char \<times> char \<times> char" where
  "window tree i =
     (tree ! i, tree ! (i + 1), if i + 2 = length tree then CHR ''L'' else tree ! (i + 2))"

definition descriptor_at :: "string \<Rightarrow> nat \<Rightarrow> string list list option" where
  "descriptor_at tree i = map_option descriptor (map_of lookaside_table (window tree i))"

definition copy_at :: "string \<Rightarrow> nat \<Rightarrow> (string \<times> string) option" where
  "copy_at tree i =
     map_option (\<lambda>d. (frame_path (main_gif_basename d), copy_path (main_gif_basename d) i))
       (descriptor_at tree i)"

definition matched_indices :: "string \<Rightarrow> nat list" where
  "matched_indices tree = filter (\<lambda>i. descriptor_at tree i \<noteq> None) [0..<length tree - 1]"

text \<open>The invariants of a tree, as section 3 of the specification lists them.\<close>

definition tree_invariants :: "string \<Rightarrow> bool" where
  "tree_invariants t \<longleftrightarrow>
     odd (length t) \<and> 5 \<le> length t \<and> set t \<subseteq> {CHR ''N'', CHR ''L'', CHR ''R''} \<and>
     t ! 0 = CHR ''N'' \<and> t ! (length t - 1) = CHR ''N'' \<and>
     (\<forall>i<length t. t ! i = CHR ''L'' \<or> t ! i = CHR ''R'' \<longrightarrow>
        i + 1 < length t \<and> t ! (i + 1) = CHR ''N'') \<and>
     t ! (length t - 2) = CHR ''R''"

definition alternating :: "string \<Rightarrow> bool" where
  "alternating t \<longleftrightarrow>
     (\<forall>i<length t. (even i \<longrightarrow> t ! i = CHR ''N'') \<and>
        (odd i \<longrightarrow> t ! i = CHR ''L'' \<or> t ! i = CHR ''R''))"

section \<open>Properties of the tree generator\<close>

lemma random_choice_RL:
  "random_choice [CHR ''R'', CHR ''L''] r = CHR ''R'' \<or> random_choice [CHR ''R'', CHR ''L''] r = CHR ''L''"
proof -
  have l: "length [CHR ''R'', CHR ''L''] = 2" by simp
  have "r mod 2 = 0 \<or> r mod 2 = 1" by presburger
  then show ?thesis unfolding random_choice_def l by auto
qed

lemma alternating_last:
  assumes "alternating tree" "tree \<noteq> []"
  shows "last tree = CHR ''N'' \<longleftrightarrow> odd (length tree)"
proof -
  have i: "length tree - 1 < length tree" using assms by simp
  have l: "last tree = tree ! (length tree - 1)" using assms by (simp add: last_conv_nth)
  have p: "even (length tree - 1) \<longleftrightarrow> odd (length tree)" using assms
    by (cases "length tree") auto
  have q: "(even (length tree - 1) \<longrightarrow> tree ! (length tree - 1) = CHR ''N'') \<and>
        (odd (length tree - 1) \<longrightarrow> tree ! (length tree - 1) = CHR ''L'' \<or> tree ! (length tree - 1) = CHR ''R'')"
    using assms(1) i unfolding alternating_def by blast
  show ?thesis
  proof (cases "odd (length tree)")
    case True
    then show ?thesis using q p l by simp
  next
    case False
    then have "tree ! (length tree - 1) = CHR ''L'' \<or> tree ! (length tree - 1) = CHR ''R''"
      using q p by blast
    then show ?thesis using False l by auto
  qed
qed

lemma alternating_snoc:
  assumes "alternating tree"
    and "even (length tree) \<Longrightarrow> c = CHR ''N''"
    and "odd (length tree) \<Longrightarrow> c = CHR ''L'' \<or> c = CHR ''R''"
  shows "alternating (tree @ [c])"
  unfolding alternating_def
proof (intro allI impI)
  fix i assume "i < length (tree @ [c])"
  then consider "i < length tree" | "i = length tree" by fastforce
  then show "(even i \<longrightarrow> (tree @ [c]) ! i = CHR ''N'') \<and>
         (odd i \<longrightarrow> (tree @ [c]) ! i = CHR ''L'' \<or> (tree @ [c]) ! i = CHR ''R'')"
  proof cases
    case 1
    then show ?thesis using assms(1) unfolding alternating_def by (simp add: nth_append)
  next
    case 2
    then show ?thesis using assms(2,3) by (simp add: nth_append)
  qed
qed


lemma tree_loop_inv:
  "alternating tree \<Longrightarrow> tree \<noteq> [] \<Longrightarrow>
   \<exists>t k'. tree_loop rnd len tree k = (Inr t, k') \<and> alternating t \<and>
     int (length t) = max (int (length tree)) (len - 2)"
proof (induction rnd len tree k rule: tree_loop.induct)
  case (1 rnd len tree k)
  show ?case
  proof (cases "int (length tree) < len - 2")
    case False
    then show ?thesis using "1.prems" by (simp add: tree_loop.simps)
  next
    case True
    note lt = True
    have pl: "py_last tree = Inr (last tree)" using "1.prems" by (simp add: py_last_def)
    show ?thesis
    proof (cases "last tree = CHR ''N''")
      case True
      let ?c = "random_choice [CHR ''R'', CHR ''L''] (rnd k)"
      have "odd (length tree)" using alternating_last "1.prems" True by blast
      then have a: "alternating (tree @ [?c])"
        using alternating_snoc [OF "1.prems"(1), of ?c] random_choice_RL [of "rnd k"] by blast
      have ih: "\<exists>t k'. tree_loop rnd len (tree @ [?c]) (Suc k) = (Inr t, k') \<and> alternating t \<and>
          int (length t) = max (int (length (tree @ [?c]))) (len - 2)"
        using "1.IH"(1) [OF lt pl True a] by simp
      have eq: "tree_loop rnd len tree k = tree_loop rnd len (tree @ [?c]) (Suc k)"
        using lt pl True by (subst tree_loop.simps) simp
      have m: "max (int (length (tree @ [?c]))) (len - 2) = max (int (length tree)) (len - 2)"
        using lt by simp
      show ?thesis using ih unfolding eq m .
    next
      case False
      have "even (length tree)" using alternating_last "1.prems" False by blast
      then have a: "alternating (tree @ [CHR ''N''])"
        using alternating_snoc [OF "1.prems"(1), of "CHR ''N''"] by blast
      have ih: "\<exists>t k'. tree_loop rnd len (tree @ [CHR ''N'']) k = (Inr t, k') \<and> alternating t \<and>
          int (length t) = max (int (length (tree @ [CHR ''N'']))) (len - 2)"
        using "1.IH"(2) [OF lt pl False a] by simp
      have eq: "tree_loop rnd len tree k = tree_loop rnd len (tree @ [CHR ''N'']) k"
        using lt pl False by (subst tree_loop.simps) simp
      have m: "max (int (length (tree @ [CHR ''N'']))) (len - 2) = max (int (length tree)) (len - 2)"
        using lt by simp
      show ?thesis using ih unfolding eq m .
    qed
  qed
qed


lemma generate_tree_alternating:
  assumes "5 \<le> len" "odd len"
  shows "\<exists>t k'. generate_tree rnd k len = (Inr t, k') \<and> alternating t \<and>
     int (length t) = len \<and> t ! (length t - 2) = CHR ''R''"
proof -
  have a0: "alternating [CHR ''N'']" by (simp add: alternating_def)
  obtain t k' where t: "tree_loop rnd len [CHR ''N''] k = (Inr t, k')" "alternating t"
     "int (length t) = max (int (length [CHR ''N''])) (len - 2)"
    using tree_loop_inv [OF a0, of rnd len k] by auto
  have len_t: "int (length t) = len - 2" using t(3) assms by simp
  have "odd (len - 2)" using assms(2) by simp
  then have "odd (int (length t))" using len_t by simp
  then have odd_t: "odd (length t)" by simp
  have a1: "alternating (t @ [CHR ''R''])"
    using alternating_snoc [OF t(2), of "CHR ''R''"] odd_t by blast
  have a2: "alternating ((t @ [CHR ''R'']) @ [CHR ''N''])"
    using alternating_snoc [OF a1, of "CHR ''N''"] odd_t by simp
  have g: "generate_tree rnd k len = (Inr ((t @ [CHR ''R'']) @ [CHR ''N'']), k')"
    using assms t(1) by (simp add: generate_tree_def odd_iff_mod_2_eq_one)
  have r: "((t @ [CHR ''R'']) @ [CHR ''N'']) ! (length ((t @ [CHR ''R'']) @ [CHR ''N'']) - 2) = CHR ''R''"
    by (simp add: nth_append)
  have n: "int (length ((t @ [CHR ''R'']) @ [CHR ''N''])) = len" using len_t by simp
  show ?thesis using g a2 n r by blast
qed

lemma alternating_nth_even: "alternating t \<Longrightarrow> i < length t \<Longrightarrow> even i \<Longrightarrow> t ! i = CHR ''N''"
  unfolding alternating_def by blast

lemma alternating_nth_odd:
  "alternating t \<Longrightarrow> i < length t \<Longrightarrow> odd i \<Longrightarrow> t ! i = CHR ''L'' \<or> t ! i = CHR ''R''"
  unfolding alternating_def by blast

lemma alternating_symbols:
  assumes "alternating t"
  shows "set t \<subseteq> {CHR ''N'', CHR ''L'', CHR ''R''}"
proof
  fix c assume "c \<in> set t"
  then obtain i where i: "i < length t" "t ! i = c" by (auto simp: in_set_conv_nth)
  show "c \<in> {CHR ''N'', CHR ''L'', CHR ''R''}"
    using alternating_nth_even [OF assms i(1)] alternating_nth_odd [OF assms i(1)] i(2)
    by (cases "even i") auto
qed

lemma alternating_no_adjacent_directions:
  assumes "alternating t" "Suc i < length t"
  shows "\<not> ((t ! i = CHR ''L'' \<or> t ! i = CHR ''R'') \<and> (t ! Suc i = CHR ''L'' \<or> t ! Suc i = CHR ''R''))"
proof (cases "even i")
  case True
  then have "t ! i = CHR ''N''" using alternating_nth_even assms by simp
  then show ?thesis by simp
next
  case False
  then have "t ! Suc i = CHR ''N''" using alternating_nth_even [OF assms(1,2)] by simp
  then show ?thesis by simp
qed

text \<open>
  C1. For every odd length of at least 5 and every random source, \<open>generate_tree\<close>
  returns a string of exactly that many symbols over N, L and R that starts and ends
  with N, has no two direction symbols (L or R) next to each other, and has R at
  position \<open>length - 2\<close>.
\<close>

theorem generate_tree_valid:
  assumes "5 \<le> len" and "odd len"
  shows "\<exists>t k'. generate_tree rnd k len = (Inr t, k') \<and>
     int (length t) = len \<and>
     set t \<subseteq> {CHR ''N'', CHR ''L'', CHR ''R''} \<and>
     hd t = CHR ''N'' \<and> last t = CHR ''N'' \<and>
     (\<forall>i. Suc i < length t \<longrightarrow>
        \<not> ((t ! i = CHR ''L'' \<or> t ! i = CHR ''R'') \<and> (t ! Suc i = CHR ''L'' \<or> t ! Suc i = CHR ''R''))) \<and>
     t ! nat (len - 2) = CHR ''R''"
proof -
  obtain t k' where t: "generate_tree rnd k len = (Inr t, k')" "alternating t"
    "int (length t) = len" "t ! (length t - 2) = CHR ''R''"
    using generate_tree_alternating [OF assms] by blast
  have ne: "t \<noteq> []" using t(3) assms(1) by auto
  have odd_t: "odd (length t)" using t(3) assms(2) by (metis even_of_nat)
  have h: "hd t = CHR ''N''"
    using alternating_nth_even [OF t(2), of 0] ne by (simp add: hd_conv_nth)
  have l: "last t = CHR ''N''" using alternating_last [OF t(2) ne] odd_t by simp
  have p: "nat (len - 2) = length t - 2" using t(3) by linarith
  show ?thesis
    using t(1,3,4) alternating_symbols [OF t(2)] h l alternating_no_adjacent_directions [OF t(2)]
    unfolding p by blast
qed

theorem generate_tree_valid_witness:
  "\<exists>t k'. generate_tree (\<lambda>n. n) 0 7 = (Inr t, k') \<and> int (length t) = 7 \<and>
     hd t = CHR ''N'' \<and> last t = CHR ''N'' \<and> t ! nat (7 - 2) = CHR ''R''"
  using generate_tree_valid [of 7 "\<lambda>n. n" 0] by auto

text \<open>
  C4. For every length that is even or below 5, \<open>generate_tree\<close> fails with the
  ValueError of line 88; no tree is returned and no draw is taken from the random source.
\<close>

theorem generate_tree_invalid:
  assumes "len < 5 \<or> even len"
  shows "generate_tree rnd k len =
    (Inl (ValueError ''Length must be an odd number and at least 5''), k)"
  using assms by (auto simp: generate_tree_def)

theorem generate_tree_invalid_witness:
  "generate_tree (\<lambda>n. n) 0 3 = (Inl (ValueError ''Length must be an odd number and at least 5''), 0) \<and>
   generate_tree (\<lambda>n. n) 0 8 = (Inl (ValueError ''Length must be an odd number and at least 5''), 0) \<and>
   generate_tree (\<lambda>n. n) 0 (- 5) = (Inl (ValueError ''Length must be an odd number and at least 5''), 0)"
  using generate_tree_invalid [of 3 "\<lambda>n. n" 0] generate_tree_invalid [of 8 "\<lambda>n. n" 0]
    generate_tree_invalid [of "- 5" "\<lambda>n. n" 0] by simp

section \<open>Properties of the sequence builder\<close>

lemma match_block_table:
  "match_block b n nn i st =
     (case map_of lookaside_table (b, n, nn) of
        None \<Rightarrow> st
      | Some row \<Rightarrow> create_gif_copy (main_gif_basename (descriptor row)) i
          (sequence_append (descriptor row) st))"
  unfolding match_block_def lookaside_table_def descriptor_def main_gif_basename_def
  by simp

lemma process_block_last:
  "Suc i = length tree \<Longrightarrow> process_block tree i block st = Inr st"
  unfolding process_block_def by auto

lemma process_block_window:
  assumes "Suc i < length tree"
  shows "process_block tree i (tree ! i) st =
     Inr (case window tree i of (b, n, nn) \<Rightarrow> match_block b n nn i st)"
proof (cases "i + 2 = length tree")
  case True
  then show ?thesis using assms
    unfolding process_block_def next_next_block_def py_getitem_def window_def by auto
next
  case False
  then have "i + 2 < length tree" using assms by simp
  then show ?thesis using assms False
    unfolding process_block_def next_next_block_def py_getitem_def window_def by auto
qed

lemma process_block_emit:
  assumes "Suc i < length tree"
  shows "process_block tree i (tree ! i) st =
     Inr \<lparr>sequence = sequence st @ (case descriptor_at tree i of None \<Rightarrow> [] | Some d \<Rightarrow> [d]),
          copies = copies st @ (case copy_at tree i of None \<Rightarrow> [] | Some c \<Rightarrow> [c])\<rparr>"
proof (cases "map_of lookaside_table (window tree i)")
  case None
  then show ?thesis
    unfolding process_block_window [OF assms] descriptor_at_def copy_at_def
    by (cases "window tree i") (simp add: match_block_table)
next
  case (Some row)
  then show ?thesis
    unfolding process_block_window [OF assms] descriptor_at_def copy_at_def
    by (cases "window tree i")
       (simp add: match_block_table create_gif_copy_def sequence_append_def)
qed

lemma sequence_loop_closed:
  "n \<le> length tree \<Longrightarrow>
   sequence_loop tree (enumerate n (drop n tree)) st =
     Inr \<lparr>sequence = sequence st @ List.map_filter (descriptor_at tree) [n..<length tree - 1],
          copies = copies st @ List.map_filter (copy_at tree) [n..<length tree - 1]\<rparr>"
proof (induction "length tree - n" arbitrary: n st)
  case 0
  then have "n = length tree" by simp
  then show ?case by (simp add: map_filter_simps)
next
  case (Suc m)
  then have lt: "n < length tree" by simp
  have d: "drop n tree = tree ! n # drop (Suc n) tree"
    using lt by (simp add: Cons_nth_drop_Suc)
  have ih: "\<And>st'. sequence_loop tree (enumerate (Suc n) (drop (Suc n) tree)) st' =
     Inr \<lparr>sequence = sequence st' @ List.map_filter (descriptor_at tree) [Suc n..<length tree - 1],
          copies = copies st' @ List.map_filter (copy_at tree) [Suc n..<length tree - 1]\<rparr>"
    using Suc.hyps(1) [of "Suc n"] Suc.hyps(2) lt by simp
  show ?case
  proof (cases "Suc n = length tree")
    case True
    have "length tree - 1 \<le> n" using True by simp
    then have e: "[n..<length tree - 1] = []" "[Suc n..<length tree - 1] = []" by simp_all
    have p: "process_block tree n (tree ! n) st = Inr st" by (rule process_block_last [OF True])
    show ?thesis
      unfolding d e using ih [of st] unfolding e
      by (simp add: p map_filter_simps)
  next
    case False
    then have lt2: "Suc n < length tree" using lt by simp
    then have u: "[n..<length tree - 1] = n # [Suc n..<length tree - 1]"
      by (simp add: upt_conv_Cons)
    show ?thesis
      unfolding d u
      by (simp add: process_block_emit [OF lt2] ih map_filter_simps split: option.split)
  qed
qed

lemma build_sequence_closed:
  "build_sequence tree =
     Inr \<lparr>sequence = List.map_filter (descriptor_at tree) [0..<length tree - 1],
          copies = List.map_filter (copy_at tree) [0..<length tree - 1]\<rparr>"
  unfolding build_sequence_def using sequence_loop_closed [of 0 tree] by simp

lemma descriptor_at_cases:
  assumes "descriptor_at tree i = Some d"
  shows "d \<in> {[[''R'', ''LNL''], [''L'', ''LN_DEATH'']], [[''R'', ''LNR''], [''L'', ''LN_DEATH'']],
              [[''L'', ''RNL''], [''R'', ''RN_DEATH'']], [[''L'', ''RNR''], [''R'', ''RN_DEATH'']],
              [[''R'', ''NLN''], [''L'', ''NLN_DEATH'']], [[''L'', ''NRN''], [''R'', ''NRN_DEATH'']]}"
proof -
  obtain row where r: "map_of lookaside_table (window tree i) = Some row" "d = descriptor row"
    using assms unfolding descriptor_at_def by auto
  have "(window tree i, row) \<in> set lookaside_table" using r(1) by (rule map_of_SomeD)
  then have "row \<in> snd ` set lookaside_table" by force
  then show ?thesis unfolding r(2) lookaside_table_def descriptor_def by auto
qed

lemma map_filter_member:
  "d \<in> set (List.map_filter f xs) \<longleftrightarrow> (\<exists>x\<in>set xs. f x = Some d)"
  unfolding List.map_filter_def by force

text \<open>
  C2. Each of the six windows of the \<open>match\<close> statement appends the step descriptor
  that the lookaside table gives for it. In particular the correct button is the
  opposite of the success asset's first letter when the window starts with L or R, and
  the opposite of the middle symbol when it starts with N.
\<close>

theorem match_block_rows:
  "sequence (match_block CHR ''L'' CHR ''N'' CHR ''L'' i st) =
     sequence st @ [[[''R'', ''LNL''], [''L'', ''LN_DEATH'']]] \<and>
   sequence (match_block CHR ''L'' CHR ''N'' CHR ''R'' i st) =
     sequence st @ [[[''R'', ''LNR''], [''L'', ''LN_DEATH'']]] \<and>
   sequence (match_block CHR ''R'' CHR ''N'' CHR ''L'' i st) =
     sequence st @ [[[''L'', ''RNL''], [''R'', ''RN_DEATH'']]] \<and>
   sequence (match_block CHR ''R'' CHR ''N'' CHR ''R'' i st) =
     sequence st @ [[[''L'', ''RNR''], [''R'', ''RN_DEATH'']]] \<and>
   sequence (match_block CHR ''N'' CHR ''L'' CHR ''N'' i st) =
     sequence st @ [[[''R'', ''NLN''], [''L'', ''NLN_DEATH'']]] \<and>
   sequence (match_block CHR ''N'' CHR ''R'' CHR ''N'' i st) =
     sequence st @ [[[''L'', ''NRN''], [''R'', ''NRN_DEATH'']]] \<and>
   (\<forall>b n nn d. sequence (match_block b n nn i st) = sequence st @ [d] \<longrightarrow>
      (b = CHR ''L'' \<longrightarrow> hd (main_gif_basename d) = CHR ''L'' \<and> correct_button d = ''R'') \<and>
      (b = CHR ''R'' \<longrightarrow> hd (main_gif_basename d) = CHR ''R'' \<and> correct_button d = ''L'') \<and>
      (b = CHR ''N'' \<and> n = CHR ''L'' \<longrightarrow> correct_button d = ''R'') \<and>
      (b = CHR ''N'' \<and> n = CHR ''R'' \<longrightarrow> correct_button d = ''L'') \<and>
      (b = CHR ''L'' \<or> b = CHR ''R'' \<or> (b = CHR ''N'' \<and> (n = CHR ''L'' \<or> n = CHR ''R''))))"
proof -
  have rows: "\<And>b n nn. sequence (match_block b n nn i st) =
      sequence st @ (case map_of lookaside_table (b, n, nn) of None \<Rightarrow> [] | Some row \<Rightarrow> [descriptor row])"
    by (simp add: match_block_table create_gif_copy_def sequence_append_def split: option.split)
  have part: "\<And>b n nn d. sequence (match_block b n nn i st) = sequence st @ [d] \<Longrightarrow>
      (b = CHR ''L'' \<longrightarrow> hd (main_gif_basename d) = CHR ''L'' \<and> correct_button d = ''R'') \<and>
      (b = CHR ''R'' \<longrightarrow> hd (main_gif_basename d) = CHR ''R'' \<and> correct_button d = ''L'') \<and>
      (b = CHR ''N'' \<and> n = CHR ''L'' \<longrightarrow> correct_button d = ''R'') \<and>
      (b = CHR ''N'' \<and> n = CHR ''R'' \<longrightarrow> correct_button d = ''L'') \<and>
      (b = CHR ''L'' \<or> b = CHR ''R'' \<or> (b = CHR ''N'' \<and> (n = CHR ''L'' \<or> n = CHR ''R'')))"
    unfolding match_block_def create_gif_copy_def sequence_append_def
      correct_button_def main_gif_basename_def
    by (auto split: if_splits)
  show ?thesis
    using part by (simp add: rows lookaside_table_def descriptor_def)
qed

theorem match_block_rows_witness:
  "sequence (match_block CHR ''R'' CHR ''N'' CHR ''L'' 3 \<lparr>sequence = [], copies = []\<rparr>) =
      [] @ [[[''L'', ''RNL''], [''R'', ''RN_DEATH'']]] \<and>
   hd (main_gif_basename [[''L'', ''RNL''], [''R'', ''RN_DEATH'']]) = CHR ''R'' \<and>
   correct_button [[''L'', ''RNL''], [''R'', ''RN_DEATH'']] = ''L''"
  using match_block_rows [of 3 "\<lparr>sequence = [], copies = []\<rparr>"]
  by (simp add: main_gif_basename_def correct_button_def)

text \<open>
  C5. At every processed index \<open>i\<close> (any index but the last), the third component of
  the window handed to the \<open>match\<close> statement is the fixed symbol L when \<open>i\<close> is the
  second-to-last index, whatever the tree holds, and \<open>tree[i + 2]\<close> otherwise.
\<close>

theorem next_next_block_sentinel:
  assumes "Suc i < length tree"
  shows "next_next_block tree i =
       Inr (if i = length tree - 2 then CHR ''L'' else tree ! (i + 2)) \<and>
     process_block tree i block st =
       Inr (match_block block (tree ! Suc i)
              (if i = length tree - 2 then CHR ''L'' else tree ! (i + 2)) i st)"
proof (cases "i = length tree - 2")
  case True
  then have "int i = int (length tree) - 2" using assms by linarith
  then show ?thesis using assms True
    unfolding process_block_def next_next_block_def py_getitem_def by simp
next
  case False
  then have "i + 2 < length tree" "int i \<noteq> int (length tree) - 2" using assms by linarith+
  then show ?thesis using assms False
    unfolding process_block_def next_next_block_def py_getitem_def by simp
qed

theorem next_next_block_sentinel_witness:
  "Suc 3 < length ''NLNRN'' \<and> next_next_block ''NLNRN'' 3 = Inr CHR ''L'' \<and>
   Suc 1 < length ''NLNRN'' \<and> next_next_block ''NLNRN'' 1 = Inr CHR ''R''"
  using next_next_block_sentinel [of 3 "''NLNRN''" "CHR ''R''" "\<lparr>sequence = [], copies = []\<rparr>"]
    next_next_block_sentinel [of 1 "''NLNRN''" "CHR ''L''" "\<lparr>sequence = [], copies = []\<rparr>"]
  by simp

text \<open>
  C8. At a processed index whose window is none of the six rows of the table, the loop
  body leaves the state as it was (no descriptor appended, no copy requested) without
  raising, and the loop goes on with the remaining positions.
\<close>

theorem unmatched_window_skipped:
  assumes "Suc i < length tree"
    and "map_of lookaside_table (window tree i) = None"
  shows "process_block tree i (tree ! i) st = Inr st \<and>
     sequence_loop tree ((i, tree ! i) # rest) st = sequence_loop tree rest st"
proof -
  have "process_block tree i (tree ! i) st = Inr st"
    unfolding process_block_window [OF assms(1)] using assms(2)
    by (cases "window tree i") (simp add: match_block_table)
  then show ?thesis by simp
qed

theorem unmatched_window_skipped_witness:
  "Suc 0 < length ''NNNRN'' \<and> map_of lookaside_table (window ''NNNRN'' 0) = None \<and>
   process_block ''NNNRN'' 0 (''NNNRN'' ! 0) \<lparr>sequence = [], copies = []\<rparr> =
     Inr \<lparr>sequence = [], copies = []\<rparr> \<and>
   sequence_loop ''NNNRN'' [(0, ''NNNRN'' ! 0), (1, CHR ''N'')] \<lparr>sequence = [], copies = []\<rparr> =
     sequence_loop ''NNNRN'' [(1, CHR ''N'')] \<lparr>sequence = [], copies = []\<rparr>"
proof -
  have a: "Suc 0 < length ''NNNRN''" by simp
  have b: "map_of lookaside_table (window ''NNNRN'' 0) = None"
    by (simp add: window_def lookaside_table_def)
  show ?thesis
    using a b unmatched_window_skipped [OF a b, of "\<lparr>sequence = [], copies = []\<rparr>" "[(1, CHR ''N'')]"]
    by blast
qed

text \<open>
  C7. On every tree the builder returns normally, and in every step descriptor of its
  sequence the wrong button is the complement of the correct one: one is L and the other
  is R.
\<close>

theorem wrong_button_complement:
  "\<exists>st. build_sequence tree = Inr st \<and>
     (\<forall>d\<in>set (sequence st).
        (correct_button d = ''L'' \<and> wrong_button d = ''R'') \<or>
        (correct_button d = ''R'' \<and> wrong_button d = ''L''))"
proof -
  have "(correct_button d = ''L'' \<and> wrong_button d = ''R'') \<or>
        (correct_button d = ''R'' \<and> wrong_button d = ''L'')"
    if mem: "d \<in> set (List.map_filter (descriptor_at tree) [0..<length tree - 1])" for d
  proof -
    obtain i where "descriptor_at tree i = Some d" using mem unfolding map_filter_member by blast
    from descriptor_at_cases [OF this] show ?thesis
      by (auto simp: correct_button_def wrong_button_def)
  qed
  then show ?thesis unfolding build_sequence_closed by simp
qed

theorem wrong_button_complement_witness:
  "\<exists>st. build_sequence ''NLNRN'' = Inr st \<and> sequence st \<noteq> [] \<and>
     ((correct_button (hd (sequence st)) = ''L'' \<and> wrong_button (hd (sequence st)) = ''R'') \<or>
      (correct_button (hd (sequence st)) = ''R'' \<and> wrong_button (hd (sequence st)) = ''L''))"
proof -
  obtain st where st: "build_sequence ''NLNRN'' = Inr st"
    "\<forall>d\<in>set (sequence st).
        (correct_button d = ''L'' \<and> wrong_button d = ''R'') \<or>
        (correct_button d = ''R'' \<and> wrong_button d = ''L'')"
    using wrong_button_complement [of "''NLNRN''"] by blast
  have "sequence st = List.map_filter (descriptor_at ''NLNRN'') [0..<length ''NLNRN'' - 1]"
    using st(1) unfolding build_sequence_closed by auto
  then have ne: "sequence st \<noteq> []"
    by (simp add: map_filter_simps descriptor_at_def window_def lookaside_table_def upt_rec)
  then have "hd (sequence st) \<in> set (sequence st)" by simp
  then show ?thesis using st ne by blast
qed

lemma map_filter_all:
  assumes "\<And>x. x \<in> set xs \<Longrightarrow> f x \<noteq> None"
  shows "List.map_filter f xs = map (\<lambda>x. the (f x)) xs"
proof -
  have "filter (\<lambda>x. f x \<noteq> None) xs = xs" using assms by (simp add: filter_id_conv)
  then show ?thesis unfolding List.map_filter_def by (simp add: comp_def)
qed

lemma window_matched:
  assumes "map_of lookaside_table (window tree i) = Some row"
  shows "descriptor_at tree i = Some (descriptor row)"
  using assms unfolding descriptor_at_def by simp

lemma alternating_window_matched:
  assumes alt: "alternating t" and odd_len: "odd (length t)" and i: "Suc i < length t"
  shows "descriptor_at t i \<noteq> None"
proof (cases "even i")
  case True
  have a: "t ! i = CHR ''N''" using alternating_nth_even [OF alt _ True] i by simp
  have b: "t ! (i + 1) = CHR ''L'' \<or> t ! (i + 1) = CHR ''R''"
    using alternating_nth_odd [OF alt, of "Suc i"] True i by simp
  have "even (i + 2)" using True by simp
  then have "i + 2 \<noteq> length t" using odd_len by metis
  then have lt: "i + 2 < length t" using i by simp
  have c: "t ! (i + 2) = CHR ''N''" using alternating_nth_even [OF alt lt] True by simp
  have "window t i = (CHR ''N'', t ! (i + 1), CHR ''N'')"
    using a c lt unfolding window_def by simp
  then show ?thesis using b unfolding descriptor_at_def lookaside_table_def by auto
next
  case False
  have a: "t ! i = CHR ''L'' \<or> t ! i = CHR ''R''"
    using alternating_nth_odd [OF alt _ False] i by simp
  have b: "t ! (i + 1) = CHR ''N''"
    using alternating_nth_even [OF alt, of "Suc i"] False i by simp
  show ?thesis
  proof (cases "i + 2 = length t")
    case True
    then have "window t i = (t ! i, CHR ''N'', CHR ''L'')" using b unfolding window_def by simp
    then show ?thesis using a unfolding descriptor_at_def lookaside_table_def by auto
  next
    case F: False
    then have lt: "i + 2 < length t" using i by simp
    have c: "t ! (i + 2) = CHR ''L'' \<or> t ! (i + 2) = CHR ''R''"
      using alternating_nth_odd [OF alt lt] False by simp
    have "window t i = (t ! i, CHR ''N'', t ! (i + 2))" using b F unfolding window_def by simp
    then show ?thesis using a c unfolding descriptor_at_def lookaside_table_def by auto
  qed
qed

lemma all_matched_sequence:
  assumes "\<And>i. Suc i < length t \<Longrightarrow> descriptor_at t i \<noteq> None"
  shows "build_sequence t =
     Inr \<lparr>sequence = map (\<lambda>i. the (descriptor_at t i)) [0..<length t - 1],
          copies = map (\<lambda>i. the (copy_at t i)) [0..<length t - 1]\<rparr>"
proof -
  have d: "descriptor_at t i \<noteq> None" if "i \<in> set [0..<length t - 1]" for i
    using assms [of i] that by auto
  have c: "copy_at t i \<noteq> None" if "i \<in> set [0..<length t - 1]" for i
    using d [OF that] unfolding copy_at_def by simp
  show ?thesis
    unfolding build_sequence_closed
    using map_filter_all [of "[0..<length t - 1]" "descriptor_at t", OF d]
      map_filter_all [of "[0..<length t - 1]" "copy_at t", OF c] by simp
qed

lemma generated_last_window:
  assumes "alternating t" "odd (length t)" "5 \<le> length t" "t ! (length t - 2) = CHR ''R''"
  shows "descriptor_at t (length t - 2) = Some [[''L'', ''RNL''], [''R'', ''RN_DEATH'']]"
proof -
  have e: "even (length t - 1)" using assms(2,3) by auto
  have n: "t ! (length t - 1) = CHR ''N''"
    using alternating_nth_even [OF assms(1) _ e] assms(3) by simp
  have s: "length t - 2 + 1 = length t - 1" "length t - 2 + 2 = length t" using assms(3) by auto
  have "window t (length t - 2) = (CHR ''R'', CHR ''N'', CHR ''L'')"
    unfolding window_def s using assms(4) n by simp
  then show ?thesis unfolding descriptor_at_def lookaside_table_def descriptor_def by simp
qed

lemma generated_tree_facts:
  assumes "5 \<le> len" "odd len"
  obtains t k' where "generate_tree rnd k len = (Inr t, k')" "alternating t"
    "odd (length t)" "5 \<le> length t" "t ! (length t - 2) = CHR ''R''"
proof -
  obtain t k' where t: "generate_tree rnd k len = (Inr t, k')" "alternating t"
    "int (length t) = len" "t ! (length t - 2) = CHR ''R''"
    using generate_tree_alternating [OF assms] by blast
  have "odd (int (length t))" using t(3) assms(2) by simp
  then have o: "odd (length t)" by simp
  have "5 \<le> length t" using t(3) assms(1) by linarith
  then show ?thesis using that t o by blast
qed

text \<open>
  C9. For every odd length of at least 5 and every random source, the generated tree
  alternates strictly: N at every even index, L or R at every odd index. Hence it has
  no two N next to each other, every window the builder examines (the last one with
  its sentinel included) is a row of the lookaside table, and the loop body appends a
  descriptor at every processed index: the silent skip never happens.
\<close>

theorem generated_tree_alternates:
  assumes "5 \<le> len" and "odd len"
  shows "\<exists>t k'. generate_tree rnd k len = (Inr t, k') \<and>
     (\<forall>i<length t. (even i \<longrightarrow> t ! i = CHR ''N'') \<and>
        (odd i \<longrightarrow> t ! i = CHR ''L'' \<or> t ! i = CHR ''R'')) \<and>
     (\<forall>i. Suc i < length t \<longrightarrow> \<not> (t ! i = CHR ''N'' \<and> t ! Suc i = CHR ''N'')) \<and>
     (\<forall>i. Suc i < length t \<longrightarrow> map_of lookaside_table (window t i) \<noteq> None) \<and>
     (\<forall>i st. Suc i < length t \<longrightarrow>
        (\<exists>d. process_block t i (t ! i) st =
           Inr \<lparr>sequence = sequence st @ [d],
                copies = copies st @
                  [(frame_path (main_gif_basename d), copy_path (main_gif_basename d) i)]\<rparr>))"
proof -
  obtain t k' where t: "generate_tree rnd k len = (Inr t, k')" "alternating t"
    "odd (length t)" "5 \<le> length t" "t ! (length t - 2) = CHR ''R''"
    using generated_tree_facts [OF assms] by blast
  have a: "\<forall>i<length t. (even i \<longrightarrow> t ! i = CHR ''N'') \<and>
        (odd i \<longrightarrow> t ! i = CHR ''L'' \<or> t ! i = CHR ''R'')"
    using t(2) unfolding alternating_def .
  have b: "\<not> (t ! i = CHR ''N'' \<and> t ! Suc i = CHR ''N'')" if "Suc i < length t" for i
  proof (cases "even i")
    case True
    then have "t ! Suc i = CHR ''L'' \<or> t ! Suc i = CHR ''R''"
      using alternating_nth_odd [OF t(2) that] by simp
    then show ?thesis by auto
  next
    case False
    then have "t ! i = CHR ''L'' \<or> t ! i = CHR ''R''"
      using alternating_nth_odd [OF t(2), of i] that by simp
    then show ?thesis by auto
  qed
  have m: "descriptor_at t i \<noteq> None" if "Suc i < length t" for i
    using alternating_window_matched [OF t(2,3) that] .
  have c: "map_of lookaside_table (window t i) \<noteq> None" if "Suc i < length t" for i
    using m [OF that] unfolding descriptor_at_def by simp
  have d: "\<exists>d. process_block t i (t ! i) st =
           Inr \<lparr>sequence = sequence st @ [d],
                copies = copies st @
                  [(frame_path (main_gif_basename d), copy_path (main_gif_basename d) i)]\<rparr>"
    if si: "Suc i < length t" for i st
  proof -
    obtain d where "descriptor_at t i = Some d" using m [OF si] by blast
    then show ?thesis unfolding process_block_emit [OF si] copy_at_def by simp
  qed
  show ?thesis using t(1) a b c d by blast
qed

theorem generated_tree_alternates_witness:
  "\<exists>t k'. generate_tree (\<lambda>n. n) 0 7 = (Inr t, k') \<and> length t = 7 \<and>
     t ! 0 = CHR ''N'' \<and> (t ! 1 = CHR ''L'' \<or> t ! 1 = CHR ''R'') \<and>
     map_of lookaside_table (window t 5) \<noteq> None"
proof -
  obtain t k' where t: "generate_tree (\<lambda>n. n) 0 7 = (Inr t, k')"
    "\<forall>i<length t. (even i \<longrightarrow> t ! i = CHR ''N'') \<and>
        (odd i \<longrightarrow> t ! i = CHR ''L'' \<or> t ! i = CHR ''R'')"
    "\<forall>i. Suc i < length t \<longrightarrow> map_of lookaside_table (window t i) \<noteq> None"
    using generated_tree_alternates [of 7 "\<lambda>n. n" 0] by auto
  obtain t' k'' where t': "generate_tree (\<lambda>n. n) 0 7 = (Inr t', k'')" "int (length t') = 7"
    using generate_tree_alternating [of 7 "\<lambda>n. n" 0] by auto
  have l: "length t = 7" using t(1) t' by simp
  have "t ! 0 = CHR ''N''" using t(2) l by simp
  moreover have "t ! 1 = CHR ''L'' \<or> t ! 1 = CHR ''R''" using t(2) l by simp
  moreover have "map_of lookaside_table (window t 5) \<noteq> None" using t(3) l by simp
  ultimately show ?thesis using t(1) l by blast
qed

text \<open>
  C10. For every odd length of at least 5 and every random source, the builder run on
  the generated tree returns one descriptor per index before the last, and the final
  one, at tree index \<open>length - 2\<close>, is always \<open>[['L', 'RNL'], ['R', 'RN_DEATH']]\<close>.
\<close>

theorem final_step_fixed:
  assumes "5 \<le> len" and "odd len"
  shows "\<exists>t k' st. generate_tree rnd k len = (Inr t, k') \<and> build_sequence t = Inr st \<and>
     length (sequence st) = length t - 1 \<and>
     sequence st ! (length t - 2) = [[''L'', ''RNL''], [''R'', ''RN_DEATH'']] \<and>
     last (sequence st) = [[''L'', ''RNL''], [''R'', ''RN_DEATH'']] \<and>
     correct_button (last (sequence st)) = ''L'' \<and>
     main_gif_basename (last (sequence st)) = ''RNL'' \<and>
     wrong_button (last (sequence st)) = ''R'' \<and>
     death_gif_basename (last (sequence st)) = ''RN_DEATH''"
proof -
  obtain t k' where t: "generate_tree rnd k len = (Inr t, k')" "alternating t"
    "odd (length t)" "5 \<le> length t" "t ! (length t - 2) = CHR ''R''"
    using generated_tree_facts [OF assms] by blast
  let ?st = "\<lparr>sequence = map (\<lambda>i. the (descriptor_at t i)) [0..<length t - 1],
          copies = map (\<lambda>i. the (copy_at t i)) [0..<length t - 1]\<rparr>"
  have b: "build_sequence t = Inr ?st"
    using all_matched_sequence [of t] alternating_window_matched [OF t(2,3)] by blast
  have n: "length (sequence ?st) = length t - 1" by simp
  have f: "descriptor_at t (length t - 2) = Some [[''L'', ''RNL''], [''R'', ''RN_DEATH'']]"
    using generated_last_window [OF t(2-5)] .
  have lt: "length t - 2 < length t - 1" using t(4) by simp
  have x: "sequence ?st ! (length t - 2) = [[''L'', ''RNL''], [''R'', ''RN_DEATH'']]"
    using lt f by simp
  have ne: "sequence ?st \<noteq> []" using t(4) by simp
  have "last (sequence ?st) = sequence ?st ! (length (sequence ?st) - 1)"
    using ne by (rule last_conv_nth)
  also have "length (sequence ?st) - 1 = length t - 2" by simp
  finally have y: "last (sequence ?st) = [[''L'', ''RNL''], [''R'', ''RN_DEATH'']]"
    using x by simp
  have z: "correct_button (last (sequence ?st)) = ''L''"
    "main_gif_basename (last (sequence ?st)) = ''RNL''"
    "wrong_button (last (sequence ?st)) = ''R''"
    "death_gif_basename (last (sequence ?st)) = ''RN_DEATH''"
    unfolding y by (simp_all add: correct_button_def main_gif_basename_def wrong_button_def
        death_gif_basename_def)
  show ?thesis using t(1) b n x y z by blast
qed

theorem final_step_fixed_witness:
  "\<exists>t k' st. generate_tree (\<lambda>n. n) 0 5 = (Inr t, k') \<and> build_sequence t = Inr st \<and>
     length (sequence st) = length t - 1 \<and>
     last (sequence st) = [[''L'', ''RNL''], [''R'', ''RN_DEATH'']]"
  using final_step_fixed [of 5 "\<lambda>n. n" 0] by auto

lemma invariants_window_matched:
  assumes inv: "tree_invariants t"
    and nn: "\<And>j. Suc j < length t \<Longrightarrow> \<not> (t ! j = CHR ''N'' \<and> t ! Suc j = CHR ''N'')"
    and i: "Suc i < length t"
  shows "descriptor_at t i \<noteq> None"
proof -
  have sym: "\<And>j. j < length t \<Longrightarrow> t ! j = CHR ''N'' \<or> t ! j = CHR ''L'' \<or> t ! j = CHR ''R''"
  proof -
    fix j assume j: "j < length t"
    have "set t \<subseteq> {CHR ''N'', CHR ''L'', CHR ''R''}" using inv unfolding tree_invariants_def by simp
    moreover have "t ! j \<in> set t" using j by (rule nth_mem)
    ultimately have "t ! j \<in> {CHR ''N'', CHR ''L'', CHR ''R''}" by (rule subsetD)
    then show "t ! j = CHR ''N'' \<or> t ! j = CHR ''L'' \<or> t ! j = CHR ''R''" by simp
  qed
  have follow: "\<And>j. j < length t \<Longrightarrow> t ! j = CHR ''L'' \<or> t ! j = CHR ''R'' \<Longrightarrow>
      j + 1 < length t \<and> t ! (j + 1) = CHR ''N''"
  proof -
    fix j assume j: "j < length t" "t ! j = CHR ''L'' \<or> t ! j = CHR ''R''"
    have "\<forall>i<length t. t ! i = CHR ''L'' \<or> t ! i = CHR ''R'' \<longrightarrow>
        i + 1 < length t \<and> t ! (i + 1) = CHR ''N''"
      using inv unfolding tree_invariants_def by (elim conjE)
    then show "j + 1 < length t \<and> t ! (j + 1) = CHR ''N''" using j by blast
  qed
  show ?thesis
  proof (cases "t ! i = CHR ''N''")
    case True
    then have "t ! (i + 1) \<noteq> CHR ''N''" using nn [OF i] by simp
    then have b: "t ! (i + 1) = CHR ''L'' \<or> t ! (i + 1) = CHR ''R''" using sym [of "i + 1"] i by simp
    then have c: "i + 2 < length t" "t ! (i + 2) = CHR ''N''"
      using follow [of "i + 1"] i by (simp_all add: numeral_2_eq_2)
    have "window t i = (CHR ''N'', t ! (i + 1), CHR ''N'')"
      using True c unfolding window_def by simp
    then show ?thesis using b unfolding descriptor_at_def lookaside_table_def by auto
  next
    case False
    then have a: "t ! i = CHR ''L'' \<or> t ! i = CHR ''R''" using sym [of i] i by simp
    then have b: "t ! (i + 1) = CHR ''N''" using follow [of i] i by simp
    show ?thesis
    proof (cases "i + 2 = length t")
      case True
      then have "window t i = (t ! i, CHR ''N'', CHR ''L'')" using b unfolding window_def by simp
      then show ?thesis using a unfolding descriptor_at_def lookaside_table_def by auto
    next
      case F: False
      then have lt: "Suc (i + 1) < length t" using i by simp
      have "t ! (i + 2) \<noteq> CHR ''N''" using nn [OF lt] b by (simp add: numeral_2_eq_2)
      then have c: "t ! (i + 2) = CHR ''L'' \<or> t ! (i + 2) = CHR ''R''"
        using sym [of "i + 2"] lt by simp
      have "window t i = (t ! i, CHR ''N'', t ! (i + 2))" using b F unfolding window_def by simp
      then show ?thesis using a c unfolding descriptor_at_def lookaside_table_def by auto
    qed
  qed
qed

lemma tree_invariants_NNNRN: "tree_invariants ''NNNRN''"
  unfolding tree_invariants_def by (simp add: All_less_Suc)

text \<open>
  C3, as stated, fails: the tree \<open>NNNRN\<close> satisfies every invariant that section 3
  lists, yet the builder skips the windows at indices 0 and 1 and returns two step
  descriptors, not four.
\<close>

theorem sequence_length_counterexample:
  "tree_invariants ''NNNRN'' \<and>
   build_sequence ''NNNRN'' =
     Inr \<lparr>sequence = [[[''L'', ''NRN''], [''R'', ''NRN_DEATH'']],
                      [[''L'', ''RNL''], [''R'', ''RN_DEATH'']]],
          copies = [(''static/game_frames/NRN.gif'', ''static/game_frame_copies/NRN_2.gif''),
                    (''static/game_frames/RNL.gif'', ''static/game_frame_copies/RNL_3.gif'')]\<rparr> \<and>
   length [[[''L'', ''NRN''], [''R'', ''NRN_DEATH'']], [[''L'', ''RNL''], [''R'', ''RN_DEATH'']]]
     \<noteq> length ''NNNRN'' - 1"
proof -
  have "build_sequence ''NNNRN'' =
     Inr \<lparr>sequence = [[[''L'', ''NRN''], [''R'', ''NRN_DEATH'']],
                      [[''L'', ''RNL''], [''R'', ''RN_DEATH'']]],
          copies = [(''static/game_frames/NRN.gif'', ''static/game_frame_copies/NRN_2.gif''),
                    (''static/game_frames/RNL.gif'', ''static/game_frame_copies/RNL_3.gif'')]\<rparr>"
    unfolding build_sequence_def
    by (simp add: enumerate_eq_zip upt_rec process_block_def py_getitem_def next_next_block_def
        match_block_def create_gif_copy_def sequence_append_def frame_path_def copy_path_def
        str_nat.simps)
  then show ?thesis using tree_invariants_NNNRN by simp
qed

text \<open>
  C3, amended. For every tree that satisfies the invariants of section 3 and has no two
  N next to each other (every tree \<open>generate_tree\<close> returns is one), the builder
  returns a sequence of \<open>length - 1\<close> step descriptors, one per index before the last;
  for a tree of length 101 that is 100 descriptors.
\<close>

theorem sequence_length:
  assumes "tree_invariants t"
    and "\<forall>i. Suc i < length t \<longrightarrow> \<not> (t ! i = CHR ''N'' \<and> t ! Suc i = CHR ''N'')"
  shows "\<exists>st. build_sequence t = Inr st \<and> length (sequence st) = length t - 1 \<and>
     (\<forall>i<length t - 1. descriptor_at t i = Some (sequence st ! i)) \<and>
     (length t = 101 \<longrightarrow> length (sequence st) = 100)"
proof -
  have m: "\<And>i. Suc i < length t \<Longrightarrow> descriptor_at t i \<noteq> None"
    using invariants_window_matched [OF assms(1)] assms(2) by blast
  let ?st = "\<lparr>sequence = map (\<lambda>i. the (descriptor_at t i)) [0..<length t - 1],
          copies = map (\<lambda>i. the (copy_at t i)) [0..<length t - 1]\<rparr>"
  have b: "build_sequence t = Inr ?st" using all_matched_sequence [of t] m by blast
  have n: "length (sequence ?st) = length t - 1" by simp
  have d: "\<forall>i<length t - 1. descriptor_at t i = Some (sequence ?st ! i)"
    using m by auto
  have h: "length t = 101 \<longrightarrow> length (sequence ?st) = 100" by simp
  show ?thesis using b n d h by blast
qed

theorem sequence_length_witness:
  "tree_invariants ''NLNRN'' \<and>
   \<not> (''NLNRN'' ! 0 = CHR ''N'' \<and> ''NLNRN'' ! 1 = CHR ''N'') \<and>
   \<not> (''NLNRN'' ! 1 = CHR ''N'' \<and> ''NLNRN'' ! 2 = CHR ''N'') \<and>
   \<not> (''NLNRN'' ! 2 = CHR ''N'' \<and> ''NLNRN'' ! 3 = CHR ''N'') \<and>
   \<not> (''NLNRN'' ! 3 = CHR ''N'' \<and> ''NLNRN'' ! 4 = CHR ''N'') \<and>
   (\<exists>st. build_sequence ''NLNRN'' = Inr st \<and> length (sequence st) = 4)"
proof -
  have a: "tree_invariants ''NLNRN''"
    unfolding tree_invariants_def by (simp add: All_less_Suc)
  have "\<forall>i<4. \<not> (''NLNRN'' ! i = CHR ''N'' \<and> ''NLNRN'' ! Suc i = CHR ''N'')"
    by (simp add: All_less_Suc numeral_eq_Suc)
  then have b: "\<forall>i. Suc i < length ''NLNRN'' \<longrightarrow>
      \<not> (''NLNRN'' ! i = CHR ''N'' \<and> ''NLNRN'' ! Suc i = CHR ''N'')"
    by simp
  obtain st where "build_sequence ''NLNRN'' = Inr st" "length (sequence st) = length ''NLNRN'' - 1"
    using sequence_length [OF a b] by blast
  then have "\<exists>st. build_sequence ''NLNRN'' = Inr st \<and> length (sequence st) = 4" by auto
  then show ?thesis using a by simp
qed

lemma digit_inj:
  assumes "a < 10" "b < 10" "''0123456789'' ! a = ''0123456789'' ! b"
  shows "a = b"
proof -
  have d: "distinct ''0123456789''" by simp
  have "a < length ''0123456789''" "b < length ''0123456789''" using assms(1,2) by simp_all
  then show ?thesis using nth_eq_iff_index_eq [OF d] assms(3) by blast
qed

lemma str_nat_nonempty: "str_nat n \<noteq> []"
  by (subst str_nat.simps) simp

lemma str_nat_inj: "str_nat n = str_nat m \<Longrightarrow> n = m"
proof (induction n arbitrary: m rule: str_nat.induct)
  case (1 n)
  show ?case
  proof (cases "n < 10")
    case True
    note n_small = True
    show ?thesis
    proof (cases "m < 10")
      case True
      have "[''0123456789'' ! n] = [''0123456789'' ! m]"
        using "1.prems" n_small True by (simp add: str_nat.simps [of n] str_nat.simps [of m])
      then show ?thesis using digit_inj [OF n_small True] by simp
    next
      case False
      have "[''0123456789'' ! n] = str_nat (m div 10) @ [''0123456789'' ! (m mod 10)]"
        using "1.prems" n_small False by (simp add: str_nat.simps [of n] str_nat.simps [of m])
      then have "str_nat (m div 10) = []" by simp
      then show ?thesis using str_nat_nonempty by blast
    qed
  next
    case False
    note n_big = False
    show ?thesis
    proof (cases "m < 10")
      case True
      have "str_nat (n div 10) @ [''0123456789'' ! (n mod 10)] = [''0123456789'' ! m]"
        using "1.prems" n_big True by (simp add: str_nat.simps [of n] str_nat.simps [of m])
      then have "str_nat (n div 10) = []" by simp
      then show ?thesis using str_nat_nonempty by blast
    next
      case False
      have "str_nat (n div 10) @ [''0123456789'' ! (n mod 10)] =
            str_nat (m div 10) @ [''0123456789'' ! (m mod 10)]"
        using "1.prems" n_big False by (simp add: str_nat.simps [of n] str_nat.simps [of m])
      then have e: "str_nat (n div 10) = str_nat (m div 10)"
        "''0123456789'' ! (n mod 10) = ''0123456789'' ! (m mod 10)" by simp_all
      have q: "n div 10 = m div 10" using "1.IH" [OF n_big e(1)] .
      have r: "n mod 10 = m mod 10" using digit_inj [of "n mod 10" "m mod 10"] e(2) by simp
      have "n = 10 * (n div 10) + n mod 10" by simp
      also have "\<dots> = 10 * (m div 10) + m mod 10" using q r by simp
      finally show ?thesis by simp
    qed
  qed
qed

lemma frame_path_inj: "frame_path a = frame_path b \<Longrightarrow> a = b"
  unfolding frame_path_def by simp

lemma copy_path_inj: "copy_path a i = copy_path a j \<Longrightarrow> i = j"
  unfolding copy_path_def using str_nat_inj by simp

lemma copy_request_inj:
  assumes "(frame_path a, copy_path a i) = (frame_path b, copy_path b j)"
  shows "a = b \<and> i = j"
proof -
  have ab: "a = b" using assms frame_path_inj by simp
  then have "copy_path a i = copy_path a j" using assms by simp
  then show ?thesis using ab copy_path_inj by blast
qed

lemma distinct_count_list_one: "distinct xs \<Longrightarrow> x \<in> set xs \<Longrightarrow> count_list xs x = 1"
  by (induction xs) auto

lemma build_sequence_matched:
  "build_sequence tree =
     Inr \<lparr>sequence = map (\<lambda>i. the (descriptor_at tree i)) (matched_indices tree),
          copies = map (\<lambda>i. the (copy_at tree i)) (matched_indices tree)\<rparr>"
proof -
  have c: "(copy_at tree i \<noteq> None) = (descriptor_at tree i \<noteq> None)" for i
    unfolding copy_at_def by simp
  show ?thesis
    unfolding build_sequence_closed List.map_filter_def matched_indices_def c
    by (simp add: comp_def)
qed

lemma matched_indices_member:
  "i \<in> set (matched_indices tree) \<longleftrightarrow> Suc i < length tree \<and> descriptor_at tree i \<noteq> None"
  unfolding matched_indices_def by auto

lemma copy_at_matched:
  assumes "descriptor_at tree i = Some d"
  shows "the (copy_at tree i) = (frame_path (main_gif_basename d), copy_path (main_gif_basename d) i)"
  using assms unfolding copy_at_def by simp

lemma copy_at_inj_on: "inj_on (\<lambda>i. the (copy_at tree i)) (set (matched_indices tree))"
proof (rule inj_onI)
  fix i j
  assume i: "i \<in> set (matched_indices tree)" and j: "j \<in> set (matched_indices tree)"
    and e: "the (copy_at tree i) = the (copy_at tree j)"
  obtain d where d: "descriptor_at tree i = Some d" using i matched_indices_member by blast
  obtain d' where d': "descriptor_at tree j = Some d'" using j matched_indices_member by blast
  show "i = j"
    using e copy_request_inj unfolding copy_at_matched [OF d] copy_at_matched [OF d'] by blast
qed

text \<open>
  C6. On every tree the builder returns normally, and the step descriptors and the copy
  requests correspond one to one, in order: the \<open>k\<close>-th descriptor is the one appended at the
  \<open>k\<close>-th index whose window is a row of the table, and for its success asset \<open>S\<close> and
  that index \<open>i\<close> the request from \<open>static/game_frames/S.gif\<close> to
  \<open>static/game_frame_copies/S_i.gif\<close> occurs exactly once among the requests. No
  request names an index whose window is not a row of the table.
\<close>

theorem copy_requests_roundtrip:
  "\<exists>st. build_sequence tree = Inr st \<and>
     length (sequence st) = length (matched_indices tree) \<and>
     length (copies st) = length (matched_indices tree) \<and>
     (\<forall>k<length (matched_indices tree).
        descriptor_at tree (matched_indices tree ! k) = Some (sequence st ! k) \<and>
        copies st ! k =
          (frame_path (main_gif_basename (sequence st ! k)),
           copy_path (main_gif_basename (sequence st ! k)) (matched_indices tree ! k)) \<and>
        count_list (copies st)
          (frame_path (main_gif_basename (sequence st ! k)),
           copy_path (main_gif_basename (sequence st ! k)) (matched_indices tree ! k)) = 1) \<and>
     (\<forall>name i. (frame_path name, copy_path name i) \<in> set (copies st) \<longrightarrow>
        Suc i < length tree \<and> descriptor_at tree i \<noteq> None)"
proof -
  let ?ms = "matched_indices tree"
  let ?st = "\<lparr>sequence = map (\<lambda>i. the (descriptor_at tree i)) ?ms,
          copies = map (\<lambda>i. the (copy_at tree i)) ?ms\<rparr>"
  have b: "build_sequence tree = Inr ?st" by (rule build_sequence_matched)
  have l: "length (sequence ?st) = length ?ms" "length (copies ?st) = length ?ms" by simp_all
  have dist: "distinct (copies ?st)"
    using copy_at_inj_on [of tree] by (simp add: distinct_map matched_indices_def)
  have per: "descriptor_at tree (?ms ! k) = Some (sequence ?st ! k) \<and>
        copies ?st ! k =
          (frame_path (main_gif_basename (sequence ?st ! k)),
           copy_path (main_gif_basename (sequence ?st ! k)) (?ms ! k)) \<and>
        count_list (copies ?st)
          (frame_path (main_gif_basename (sequence ?st ! k)),
           copy_path (main_gif_basename (sequence ?st ! k)) (?ms ! k)) = 1"
    if k: "k < length ?ms" for k
  proof -
    have "?ms ! k \<in> set ?ms" using k by simp
    then obtain d where d: "descriptor_at tree (?ms ! k) = Some d"
      using matched_indices_member by blast
    have s: "sequence ?st ! k = d" using k d by simp
    have c: "copies ?st ! k = (frame_path (main_gif_basename d), copy_path (main_gif_basename d) (?ms ! k))"
      using k copy_at_matched [OF d] by simp
    have "copies ?st ! k \<in> set (copies ?st)" using k by (intro nth_mem) simp
    then have "count_list (copies ?st) (copies ?st ! k) = 1"
      using distinct_count_list_one [OF dist] by blast
    then show ?thesis using d c unfolding s by simp
  qed
  have only: "Suc i < length tree \<and> descriptor_at tree i \<noteq> None"
    if m: "(frame_path name, copy_path name i) \<in> set (copies ?st)" for name i
  proof -
    obtain j where j: "j \<in> set ?ms" "the (copy_at tree j) = (frame_path name, copy_path name i)"
      using m by auto
    obtain d where d: "descriptor_at tree j = Some d" using j(1) matched_indices_member by blast
    have "j = i" using j(2) copy_request_inj unfolding copy_at_matched [OF d] by blast
    then show ?thesis using j(1) matched_indices_member by blast
  qed
  show ?thesis using b l per only by blast
qed

theorem copy_requests_roundtrip_witness:
  "\<exists>st. build_sequence ''NNNRN'' = Inr st \<and> matched_indices ''NNNRN'' = [2, 3] \<and>
     length (sequence st) = 2 \<and> length (copies st) = 2 \<and>
     copies st ! 0 = (frame_path (main_gif_basename (sequence st ! 0)),
                      copy_path (main_gif_basename (sequence st ! 0)) 2) \<and>
     count_list (copies st) (frame_path (main_gif_basename (sequence st ! 0)),
                      copy_path (main_gif_basename (sequence st ! 0)) 2) = 1"
proof -
  have m: "matched_indices ''NNNRN'' = [2, 3]"
    by (simp add: matched_indices_def descriptor_at_def window_def lookaside_table_def upt_rec)
  obtain st where st: "build_sequence ''NNNRN'' = Inr st"
     "length (sequence st) = length (matched_indices ''NNNRN'')"
     "length (copies st) = length (matched_indices ''NNNRN'')"
     "\<forall>k<length (matched_indices ''NNNRN'').
        descriptor_at ''NNNRN'' (matched_indices ''NNNRN'' ! k) = Some (sequence st ! k) \<and>
        copies st ! k =
          (frame_path (main_gif_basename (sequence st ! k)),
           copy_path (main_gif_basename (sequence st ! k)) (matched_indices ''NNNRN'' ! k)) \<and>
        count_list (copies st)
          (frame_path (main_gif_basename (sequence st ! k)),
           copy_path (main_gif_basename (sequence st ! k)) (matched_indices ''NNNRN'' ! k)) = 1"
    using copy_requests_roundtrip [of "''NNNRN''"] by blast
  have "0 < length (matched_indices ''NNNRN'')" unfolding m by simp
  then have "copies st ! 0 =
          (frame_path (main_gif_basename (sequence st ! 0)),
           copy_path (main_gif_basename (sequence st ! 0)) (matched_indices ''NNNRN'' ! 0)) \<and>
        count_list (copies st)
          (frame_path (main_gif_basename (sequence st ! 0)),
           copy_path (main_gif_basename (sequence st ! 0)) (matched_indices ''NNNRN'' ! 0)) = 1"
    using st(4) by blast
  then show ?thesis using st(1,2,3) unfolding m by auto
qed

end
